theory Spec2Isabelle
  imports Main "HOL-Library.Sublist"
begin

section \<open>The EdgeOS configuration reconciler (edgeos\_config.py)\<close>

text \<open>
  A shallow embedding of the functions \<^verbatim>\<open>config_to_commands\<close>, \<^verbatim>\<open>diff_config\<close>,
  \<^verbatim>\<open>delete_unmanaged\<close> and the part of \<^verbatim>\<open>run\<close> that combines them.

  A Python \<^verbatim>\<open>str\<close> is modelled as a \<^typ>\<open>string\<close>: a list of characters, each a code
  point below 256. \<^verbatim>\<open>to_native\<close> is the identity on such a value.
\<close>

subsection \<open>String primitives of Python used by the module\<close>

text \<open>\<^verbatim>\<open>s.startswith(p)\<close>\<close>

definition startswith :: "string \<Rightarrow> string \<Rightarrow> bool" where
  "startswith s p = prefix p s"

text \<open>\<^verbatim>\<open>s.replace("'", '')\<close>: every apostrophe (code point 0x27) is removed.\<close>

definition strip_quotes :: "string \<Rightarrow> string" where
  "strip_quotes s = filter (\<lambda>c. c \<noteq> CHR 0x27) s"

text \<open>
  \<^verbatim>\<open>s.splitlines()\<close>. The line boundaries of a \<^verbatim>\<open>str\<close> among the code points below
  256 are LF, VT, FF, CR, FS, GS, RS and NEL; CR followed by LF is one boundary. A
  boundary at the very end of the text opens no further line, and the empty text has
  no line.
\<close>

definition is_linebreak :: "char \<Rightarrow> bool" where
  "is_linebreak c =
     (c = CHR 0x0A \<or> c = CHR 0x0B \<or> c = CHR 0x0C \<or> c = CHR 0x0D \<or>
      c = CHR 0x1C \<or> c = CHR 0x1D \<or> c = CHR 0x1E \<or> c = CHR 0x85)"

fun splitlines_from :: "string \<Rightarrow> string \<Rightarrow> string list" where
  "splitlines_from cur [] = (if cur = [] then [] else [cur])"
| "splitlines_from cur [c] = (if is_linebreak c then [cur] else [cur @ [c]])"
| "splitlines_from cur (c # d # cs) =
     (if c = CHR 0x0D \<and> d = CHR 0x0A then cur # splitlines_from [] cs
      else if is_linebreak c then cur # splitlines_from [] (d # cs)
      else splitlines_from (cur @ [c]) (d # cs))"

definition splitlines :: "string \<Rightarrow> string list" where
  "splitlines s = splitlines_from [] s"

text \<open>\<^verbatim>\<open>'\n'.join(lines)\<close>\<close>

fun join_nl :: "string list \<Rightarrow> string" where
  "join_nl [] = []"
| "join_nl [s] = s"
| "join_nl (s # t # ts) = s @ CHR 0x0A # join_nl (t # ts)"



text \<open>\<^verbatim>\<open>re.sub('^set ', 'delete ', line)\<close>: without the MULTILINE flag the pattern can
  only match at the start of the string, so at most one replacement is made.\<close>

definition re_sub_set_delete :: "string \<Rightarrow> string" where
  "re_sub_set_delete line =
     (if startswith line ''set '' then ''delete '' @ drop 4 line else line)"

text \<open>\<^verbatim>\<open>line.rsplit(' ', 1)[0]\<close>: the text before the last space, the whole line when it
  has no space.\<close>

definition rsplit_space_head :: "string \<Rightarrow> string" where
  "rsplit_space_head line =
     (if CHR '' '' \<in> set line
      then rev (tl (dropWhile (\<lambda>c. c \<noteq> CHR '' '') (rev line)))
      else line)"


subsection \<open>diff\_config\<close>

text \<open>The first loop of \<^verbatim>\<open>diff_config\<close>: every candidate line loses its apostrophes and
  is appended to one of \<^verbatim>\<open>set_commands\<close>, \<^verbatim>\<open>delete_commands\<close>, \<^verbatim>\<open>invalid_commands\<close>.\<close>

fun classify_loop ::
  "string list \<Rightarrow> string list \<Rightarrow> string list \<Rightarrow> string list \<Rightarrow>
   string list \<times> string list \<times> string list" where
  "classify_loop [] set_commands delete_commands invalid_commands =
     (set_commands, delete_commands, invalid_commands)"
| "classify_loop (l # ls) set_commands delete_commands invalid_commands =
     (let line = strip_quotes l in
      if startswith line ''delete '' then
        classify_loop ls set_commands (delete_commands @ [line]) invalid_commands
      else if startswith line ''set '' then
        classify_loop ls (set_commands @ [line]) delete_commands invalid_commands
      else
        classify_loop ls set_commands delete_commands (invalid_commands @ [line]))"

text \<open>The restoration loops (\<^verbatim>\<open>for line in set_commands: ... for dline in
  delete_commands: if search.startswith(dline): updates.append(line)\<close>).\<close>

fun restore_inner :: "string \<Rightarrow> string \<Rightarrow> string list \<Rightarrow> string list \<Rightarrow> string list" where
  "restore_inner line search [] updates = updates"
| "restore_inner line search (dline # dlines) updates =
     restore_inner line search dlines
       (if startswith search dline then updates @ [line] else updates)"

fun restore_loop :: "string list \<Rightarrow> string list \<Rightarrow> string list \<Rightarrow> string list" where
  "restore_loop [] delete_commands updates = updates"
| "restore_loop (line # lines) delete_commands updates =
     restore_loop lines delete_commands
       (restore_inner line (re_sub_set_delete line) delete_commands updates)"

text \<open>The loop that collects \<^verbatim>\<open>matches\<close>: a line of the unmanaged configuration is
  recorded when some update starts with its search key (the inner loop stops at the
  first such update).\<close>

fun matches_loop :: "string list \<Rightarrow> string list \<Rightarrow> string list \<Rightarrow> string list" where
  "matches_loop [] updates matches = matches"
| "matches_loop (line # lines) updates matches =
     (let search = rsplit_space_head line in
      matches_loop lines updates
        (if list_ex (\<lambda>update. startswith update search) updates
         then matches @ [line] else matches))"

text \<open>
  \<^verbatim>\<open>list(set(config) - set(set_commands))\<close>. Python does not fix the order in which a
  set is iterated, so the model takes the enumeration as a parameter \<open>enum\<close>: it is
  handed the lines of the difference and returns them as the list that Python builds.
  What Python guarantees of that list is \<open>set_enumeration enum\<close>: the same elements,
  each once. \<^term>\<open>remdups\<close> is one such enumeration.
\<close>

definition set_enumeration :: "(string list \<Rightarrow> string list) \<Rightarrow> bool" where
  "set_enumeration enum = (\<forall>xs. set (enum xs) = set xs \<and> distinct (enum xs))"

definition list_of_set_difference ::
  "(string list \<Rightarrow> string list) \<Rightarrow> string list \<Rightarrow> string list \<Rightarrow> string list" where
  "list_of_set_difference enum xs ys = enum (filter (\<lambda>x. x \<notin> set ys) xs)"

definition diff_config ::
  "(string list \<Rightarrow> string list) \<Rightarrow> string list \<Rightarrow> string \<Rightarrow>
   string list \<times> string list \<times> string list" where
  "diff_config enum commands config_text =
     (let config = map strip_quotes (splitlines config_text) in
      case classify_loop commands [] [] [] of
        (set_commands, delete_commands, invalid_commands) \<Rightarrow>
      let updates = (if delete_commands \<noteq> [] then delete_commands else []);
          updates = updates @ filter (\<lambda>line. line \<notin> set config) set_commands;
          updates = (if delete_commands \<noteq> []
                     then restore_loop set_commands delete_commands updates
                     else updates);
          unmanaged_config = list_of_set_difference enum config set_commands;
          matches = matches_loop unmanaged_config updates [];
          unmanaged_config = filter (\<lambda>line. line \<notin> set matches) unmanaged_config
      in (updates, unmanaged_config, invalid_commands))"

text \<open>The three components of the result of \<^verbatim>\<open>diff_config\<close>.\<close>

definition updates_of :: "string list \<times> string list \<times> string list \<Rightarrow> string list" where
  "updates_of r = fst r"

definition unmanaged_of :: "string list \<times> string list \<times> string list \<Rightarrow> string list" where
  "unmanaged_of r = fst (snd r)"

definition invalid_of :: "string list \<times> string list \<times> string list \<Rightarrow> string list" where
  "invalid_of r = snd (snd r)"

text \<open>The three buckets that the first loop of \<^verbatim>\<open>diff_config\<close> fills, starting from
  empty lists as the source does.\<close>

definition set_commands_of :: "string list \<Rightarrow> string list" where
  "set_commands_of commands = fst (classify_loop commands [] [] [])"

definition delete_commands_of :: "string list \<Rightarrow> string list" where
  "delete_commands_of commands = fst (snd (classify_loop commands [] [] []))"

definition invalid_commands_of :: "string list \<Rightarrow> string list" where
  "invalid_commands_of commands = snd (snd (classify_loop commands [] [] []))"

subsection \<open>delete\_unmanaged and its call in run\<close>

text \<open>\<^verbatim>\<open>delete_unmanaged\<close> appends to \<^verbatim>\<open>updates\<close> in place; the model returns the
  extended list.\<close>

definition delete_unmanaged :: "string list \<Rightarrow> string list \<Rightarrow> string list" where
  "delete_unmanaged updates unmanaged =
     foldl (\<lambda>updates line. updates @ [re_sub_set_delete line]) updates unmanaged"

text \<open>The list that \<^verbatim>\<open>run\<close> stores as \<^verbatim>\<open>result['commands']\<close>, from the candidate, the
  text of the live configuration and the module parameter \<^verbatim>\<open>delete_unmanaged\<close>.\<close>

definition run_updates ::
  "bool \<Rightarrow> (string list \<Rightarrow> string list) \<Rightarrow> string list \<Rightarrow> string \<Rightarrow> string list" where
  "run_updates delete_unmanaged_param enum candidate config =
     (case diff_config enum candidate config of
        (updates, unmanaged_config, invalid_commands) \<Rightarrow>
          if unmanaged_config \<noteq> [] \<and> delete_unmanaged_param
          then delete_unmanaged updates unmanaged_config
          else updates)"

subsection \<open>config\_to\_commands\<close>












section \<open>The loops in closed form\<close>

text \<open>Each loop of the model is a filter or a concatenation; the lemmas below are
  what the proofs of the properties use.\<close>

lemma set_not_delete: "startswith l ''set '' \<Longrightarrow> \<not> startswith l ''delete ''"
  by (cases l) (auto simp: startswith_def)

lemma classify_loop_eq:
  "classify_loop ls ss ds is =
     (ss @ filter (\<lambda>l. startswith l ''set '') (map strip_quotes ls),
      ds @ filter (\<lambda>l. startswith l ''delete '') (map strip_quotes ls),
      is @ filter (\<lambda>l. \<not> startswith l ''delete '' \<and> \<not> startswith l ''set '') (map strip_quotes ls))"
proof (induction ls arbitrary: ss ds "is")
  case Nil
  show ?case by simp
next
  case (Cons l ls)
  show ?case
    using set_not_delete [of "strip_quotes l"] by (simp add: Cons.IH Let_def)
qed

lemma set_commands_of_eq:
  "set_commands_of commands = filter (\<lambda>l. startswith l ''set '') (map strip_quotes commands)"
  by (simp add: set_commands_of_def classify_loop_eq)

lemma delete_commands_of_eq:
  "delete_commands_of commands = filter (\<lambda>l. startswith l ''delete '') (map strip_quotes commands)"
  by (simp add: delete_commands_of_def classify_loop_eq)

lemma invalid_commands_of_eq:
  "invalid_commands_of commands =
     filter (\<lambda>l. \<not> startswith l ''delete '' \<and> \<not> startswith l ''set '') (map strip_quotes commands)"
  by (simp add: invalid_commands_of_def classify_loop_eq)

lemma restore_inner_eq:
  "restore_inner line search dlines updates =
     updates @ map (\<lambda>_. line) (filter (\<lambda>dline. startswith search dline) dlines)"
  by (induction dlines arbitrary: updates) simp_all

lemma restore_loop_eq:
  "restore_loop lines delete_commands updates =
     updates @ concat (map (\<lambda>line. map (\<lambda>_. line)
        (filter (\<lambda>dline. startswith (re_sub_set_delete line) dline) delete_commands)) lines)"
  by (induction lines arbitrary: updates) (simp_all add: restore_inner_eq)

lemma matches_loop_eq:
  "matches_loop lines updates matches =
     matches @ filter (\<lambda>line. list_ex (\<lambda>update. startswith update (rsplit_space_head line)) updates) lines"
  by (induction lines arbitrary: matches) (simp_all add: Let_def)

lemma updates_of_diff_config:
  "updates_of (diff_config enum commands config_text) =
     delete_commands_of commands @
     filter (\<lambda>line. line \<notin> set (map strip_quotes (splitlines config_text))) (set_commands_of commands) @
     concat (map (\<lambda>line. map (\<lambda>_. line)
        (filter (\<lambda>dline. startswith (re_sub_set_delete line) dline) (delete_commands_of commands)))
        (set_commands_of commands))"
proof (cases "delete_commands_of commands = []")
  case True
  then have "filter (\<lambda>l. startswith l ''delete '') (map strip_quotes commands) = []"
    by (simp add: delete_commands_of_eq)
  then show ?thesis
    by (simp add: updates_of_def diff_config_def classify_loop_eq
        set_commands_of_eq delete_commands_of_eq Let_def)
next
  case False
  then have "filter (\<lambda>l. startswith l ''delete '') (map strip_quotes commands) \<noteq> []"
    by (simp add: delete_commands_of_eq)
  then show ?thesis
    by (simp add: updates_of_def diff_config_def classify_loop_eq restore_loop_eq
        set_commands_of_eq delete_commands_of_eq Let_def)
qed

lemma invalid_of_diff_config:
  "invalid_of (diff_config enum commands config_text) = invalid_commands_of commands"
  by (simp add: invalid_of_def diff_config_def classify_loop_eq invalid_commands_of_eq Let_def)

lemma unmanaged_of_diff_config:
  "unmanaged_of (diff_config enum commands config_text) =
     filter (\<lambda>line. \<not> list_ex (\<lambda>update. startswith update (rsplit_space_head line))
                        (updates_of (diff_config enum commands config_text)))
       (list_of_set_difference enum (map strip_quotes (splitlines config_text)) (set_commands_of commands))"
  by (simp add: unmanaged_of_def updates_of_def diff_config_def classify_loop_eq matches_loop_eq
      set_commands_of_eq Let_def cong: filter_cong)

lemma strip_quotes_keeps_delete:
  "startswith l ''delete '' \<Longrightarrow> startswith (strip_quotes l) ''delete ''"
  by (auto simp: startswith_def strip_quotes_def prefix_def)

lemma strip_quotes_keeps_set:
  "startswith l ''set '' \<Longrightarrow> startswith (strip_quotes l) ''set ''"
  by (auto simp: startswith_def strip_quotes_def prefix_def)

lemma set_commands_start_with_set:
  "l \<in> set (set_commands_of commands) \<Longrightarrow> startswith l ''set ''"
  by (simp add: set_commands_of_eq)

lemma delete_commands_start_with_delete:
  "l \<in> set (delete_commands_of commands) \<Longrightarrow> startswith l ''delete ''"
  by (simp add: delete_commands_of_eq)

lemma updates_of_split:
  "\<exists>sets. updates_of (diff_config enum commands config_text) = delete_commands_of commands @ sets
      \<and> set sets \<subseteq> set (set_commands_of commands)"
  unfolding updates_of_diff_config by auto

lemma filter_delete_updates:
  "filter (\<lambda>l. startswith l ''delete '') (updates_of (diff_config enum commands config_text))
     = delete_commands_of commands"
proof -
  obtain sets where u: "updates_of (diff_config enum commands config_text) = delete_commands_of commands @ sets"
    and s: "set sets \<subseteq> set (set_commands_of commands)"
    using updates_of_split by blast
  have "filter (\<lambda>l. startswith l ''delete '') sets = []"
    using s set_commands_start_with_set set_not_delete by (auto simp: filter_empty_conv)
  moreover have "filter (\<lambda>l. startswith l ''delete '') (delete_commands_of commands)
      = delete_commands_of commands"
    by (simp add: delete_commands_of_eq)
  ultimately show ?thesis by (simp add: u)
qed

lemma delete_unmanaged_eq:
  "delete_unmanaged updates unmanaged = updates @ map re_sub_set_delete unmanaged"
  unfolding delete_unmanaged_def
  by (induction unmanaged arbitrary: updates) simp_all

lemma run_updates_eq:
  "run_updates delete_unmanaged_param enum candidate config =
     (if unmanaged_of (diff_config enum candidate config) \<noteq> [] \<and> delete_unmanaged_param
      then updates_of (diff_config enum candidate config) @
           map re_sub_set_delete (unmanaged_of (diff_config enum candidate config))
      else updates_of (diff_config enum candidate config))"
  by (cases "diff_config enum candidate config")
     (simp add: run_updates_def delete_unmanaged_eq updates_of_def unmanaged_of_def)

lemma updates_order:
  assumes "i < length (updates_of (diff_config enum commands config_text))"
    and "j < length (updates_of (diff_config enum commands config_text))"
    and "startswith (updates_of (diff_config enum commands config_text) ! i) ''delete ''"
    and "startswith (updates_of (diff_config enum commands config_text) ! j) ''set ''"
  shows "i < j"
proof -
  obtain sets where u: "updates_of (diff_config enum commands config_text)
      = delete_commands_of commands @ sets"
    and s: "set sets \<subseteq> set (set_commands_of commands)"
    using updates_of_split by blast
  let ?n = "length (delete_commands_of commands)"
  have i: "i < ?n"
  proof (rule ccontr)
    assume "\<not> i < ?n"
    with assms(1) u have "(delete_commands_of commands @ sets) ! i \<in> set sets"
      by (simp add: nth_append)
    with s u have "startswith (updates_of (diff_config enum commands config_text) ! i) ''set ''"
      using set_commands_start_with_set by auto
    with assms(3) show False using set_not_delete by blast
  qed
  have j: "\<not> j < ?n"
  proof
    assume "j < ?n"
    then have "(delete_commands_of commands @ sets) ! j \<in> set (delete_commands_of commands)"
      by (simp add: nth_append)
    with u have "startswith (updates_of (diff_config enum commands config_text) ! j) ''delete ''"
      using delete_commands_start_with_delete by auto
    with assms(4) show False using set_not_delete by blast
  qed
  from i j show ?thesis by simp
qed

lemma set_enumeration_remdups: "set_enumeration remdups"
  by (simp add: set_enumeration_def)

lemma buckets_length:
  "length (filter (\<lambda>l. startswith l ''set '') ls)
   + length (filter (\<lambda>l. startswith l ''delete '') ls)
   + length (filter (\<lambda>l. \<not> startswith l ''delete '' \<and> \<not> startswith l ''set '') ls)
   = length ls"
proof (induction ls)
  case Nil
  show ?case by simp
next
  case (Cons l ls)
  then show ?case using set_not_delete [of l] by auto
qed

lemma splitlines_from_char:
  "\<not> is_linebreak c \<Longrightarrow> splitlines_from cur (c # cs) = splitlines_from (cur @ [c]) cs"
  by (cases cs) (auto simp: is_linebreak_def)

lemma splitlines_from_LF:
  "splitlines_from cur (CHR 0x0A # cs) = cur # splitlines_from [] cs"
  by (cases cs) (simp_all add: is_linebreak_def)

lemma splitlines_from_line:
  "\<not> list_ex is_linebreak s \<Longrightarrow> splitlines_from cur (s @ t) = splitlines_from (cur @ s) t"
  by (induction s arbitrary: cur) (simp_all add: splitlines_from_char)

lemma splitlines_join_nl:
  assumes "\<forall>s \<in> set stmts. s \<noteq> [] \<and> \<not> list_ex is_linebreak s"
  shows "splitlines (join_nl stmts) = stmts"
  using assms
proof (induction stmts rule: join_nl.induct)
  case 1
  show ?case by (simp add: splitlines_def)
next
  case (2 s)
  then have "splitlines_from [] (s @ []) = splitlines_from ([] @ s) []"
    by (intro splitlines_from_line) simp
  with 2 show ?case by (simp add: splitlines_def)
next
  case (3 s t ts)
  then have "splitlines_from [] (s @ CHR 0x0A # join_nl (t # ts))
      = splitlines_from ([] @ s) (CHR 0x0A # join_nl (t # ts))"
    by (intro splitlines_from_line) simp
  with 3 show ?case by (simp add: splitlines_def splitlines_from_LF)
qed

lemma idempotent_on_lines:
  assumes "\<forall>l \<in> set (splitlines config_text). startswith l ''set ''"
  shows "updates_of (diff_config enum (splitlines config_text) config_text) = []
       \<and> invalid_of (diff_config enum (splitlines config_text) config_text) = []"
proof -
  let ?c = "splitlines config_text"
  have s: "\<forall>l \<in> set (map strip_quotes ?c). startswith l ''set ''"
    using assms strip_quotes_keeps_set by auto
  then have nd: "\<forall>l \<in> set (map strip_quotes ?c). \<not> startswith l ''delete ''"
    using set_not_delete by blast
  have ss: "set_commands_of ?c = map strip_quotes ?c"
    using s unfolding set_commands_of_eq by (simp add: filter_id_conv)
  have ds: "delete_commands_of ?c = []"
    using nd unfolding delete_commands_of_eq by (simp add: filter_empty_conv)
  have "invalid_commands_of ?c = []"
    using s unfolding invalid_commands_of_eq by (simp add: filter_empty_conv)
  moreover have "updates_of (diff_config enum ?c config_text) = []"
    unfolding updates_of_diff_config ss ds by simp
  ultimately show ?thesis by (simp add: invalid_of_diff_config)
qed


lemma search_key_LAN:
  "rsplit_space_head ''set service dhcp-server shared-network-name LAN''
     = ''set service dhcp-server shared-network-name''"
  by (simp add: rsplit_space_head_def)






text \<open>The definitions that a concrete run of the model unfolds.\<close>

lemmas eval_defs = diff_config_def updates_of_def unmanaged_of_def invalid_of_def startswith_def
  strip_quotes_def splitlines_def is_linebreak_def re_sub_set_delete_def rsplit_space_head_def
  list_of_set_difference_def set_commands_of_def delete_commands_of_def invalid_commands_of_def
  Let_def


section \<open>Properties of the reconciler\<close>

subsection \<open>Restoration after a delete, on the example of the specification\<close>

text \<open>
  C4. For the candidate \<^verbatim>\<open>["delete interfaces eth0", "set interfaces eth0 address
  1.2.3.4"]\<close> and the live configuration \<^verbatim>\<open>set interfaces eth0 address 1.2.3.4\<close> the
  updates returned by \<^verbatim>\<open>diff_config\<close> are the delete statement followed by the set
  statement: both are there, although the set statement is present in the live
  configuration.
\<close>

theorem restoration_after_delete_instance:
  "updates_of (diff_config enum
       [''delete interfaces eth0'', ''set interfaces eth0 address 1.2.3.4'']
       ''set interfaces eth0 address 1.2.3.4'')
     = [''delete interfaces eth0'', ''set interfaces eth0 address 1.2.3.4'']"
  by (simp add: eval_defs)

subsection \<open>Which live lines an update keeps out of the unmanaged list\<close>

text \<open>
  The filter compares each update with the search key of the live line, which begins
  with \<^verbatim>\<open>set\<close>. An update \<^verbatim>\<open>delete service dhcp-server\<close> does not start with that key:
  with this delete as the only candidate line, the live line \<^verbatim>\<open>set service dhcp-server
  shared-network-name LAN\<close> is matched by no set command, the delete is among the
  updates, and the live line is reported as unmanaged all the same.
\<close>

theorem subsumption_by_delete_counterexample:
  "''set service dhcp-server shared-network-name LAN''
      \<in> set (map strip_quotes (splitlines ''set service dhcp-server shared-network-name LAN''))
   \<and> ''set service dhcp-server shared-network-name LAN''
      \<notin> set (set_commands_of [''delete service dhcp-server''])
   \<and> ''delete service dhcp-server''
      \<in> set (updates_of (diff_config remdups [''delete service dhcp-server'']
            ''set service dhcp-server shared-network-name LAN''))
   \<and> ''set service dhcp-server shared-network-name LAN''
      \<in> set (unmanaged_of (diff_config remdups [''delete service dhcp-server'']
            ''set service dhcp-server shared-network-name LAN''))"
  by (simp add: eval_defs)

text \<open>
  C2, as the code has it. Whenever some update starts with the search key of the live
  line, \<^verbatim>\<open>set service dhcp-server shared-network-name\<close> (the line without its last
  token), the line \<^verbatim>\<open>set service dhcp-server shared-network-name LAN\<close> is not in the
  unmanaged list returned by \<^verbatim>\<open>diff_config\<close>.
\<close>

theorem subsumption_by_search_key:
  assumes "list_ex (\<lambda>update. startswith update ''set service dhcp-server shared-network-name'')
             (updates_of (diff_config enum commands config_text))"
  shows "''set service dhcp-server shared-network-name LAN''
           \<notin> set (unmanaged_of (diff_config enum commands config_text))"
  using assms by (simp add: unmanaged_of_diff_config search_key_LAN)

theorem subsumption_by_search_key_witness:
  "list_ex (\<lambda>update. startswith update ''set service dhcp-server shared-network-name'')
     (updates_of (diff_config remdups [''set service dhcp-server shared-network-name WAN'']
        ''set service dhcp-server shared-network-name LAN''))
   \<and> ''set service dhcp-server shared-network-name LAN''
        \<in> set (map strip_quotes (splitlines ''set service dhcp-server shared-network-name LAN''))
   \<and> ''set service dhcp-server shared-network-name LAN''
        \<notin> set (set_commands_of [''set service dhcp-server shared-network-name WAN''])
   \<and> ''set service dhcp-server shared-network-name LAN''
        \<notin> set (unmanaged_of (diff_config remdups
              [''set service dhcp-server shared-network-name WAN'']
              ''set service dhcp-server shared-network-name LAN''))"
proof -
  have h: "list_ex (\<lambda>update. startswith update ''set service dhcp-server shared-network-name'')
     (updates_of (diff_config remdups [''set service dhcp-server shared-network-name WAN'']
        ''set service dhcp-server shared-network-name LAN''))"
    by (simp add: eval_defs)
  have m: "''set service dhcp-server shared-network-name LAN''
        \<in> set (map strip_quotes (splitlines ''set service dhcp-server shared-network-name LAN''))
   \<and> ''set service dhcp-server shared-network-name LAN''
        \<notin> set (set_commands_of [''set service dhcp-server shared-network-name WAN''])"
    by (simp add: eval_defs)
  from h m subsumption_by_search_key [OF h] show ?thesis by blast
qed

subsection \<open>The restoration pass\<close>

text \<open>
  The source tests \<^verbatim>\<open>search.startswith(dline)\<close>: the delete command has to be a
  prefix of the delete-equivalent of the set command, not the other way round. With the
  candidate \<^verbatim>\<open>["delete interfaces eth0 address", "set interfaces eth0"]\<close> and the live
  configuration \<^verbatim>\<open>set interfaces eth0\<close> there is a delete command, the delete-equivalent
  \<^verbatim>\<open>delete interfaces eth0\<close> of the set command is a prefix of that delete command, and
  the set command is not among the updates.
\<close>

theorem restoration_reversed_counterexample:
  "delete_commands_of [''delete interfaces eth0 address'', ''set interfaces eth0''] \<noteq> []
   \<and> ''set interfaces eth0''
        \<in> set (set_commands_of [''delete interfaces eth0 address'', ''set interfaces eth0''])
   \<and> ''delete interfaces eth0 address''
        \<in> set (delete_commands_of [''delete interfaces eth0 address'', ''set interfaces eth0''])
   \<and> prefix (re_sub_set_delete ''set interfaces eth0'') ''delete interfaces eth0 address''
   \<and> ''set interfaces eth0''
        \<notin> set (updates_of (diff_config remdups
              [''delete interfaces eth0 address'', ''set interfaces eth0'']
              ''set interfaces eth0''))"
  by (simp add: eval_defs)

text \<open>
  C3, as the code has it. For every candidate set command \<open>line\<close> and every candidate
  delete command \<open>dline\<close> (so the candidate has at least one delete command): if
  \<open>dline\<close> is a prefix of the string obtained from \<open>line\<close> by replacing its leading
  \<^verbatim>\<open>set\<close> with \<^verbatim>\<open>delete\<close>, then \<open>line\<close> is among the updates, whatever the live
  configuration holds, hence also when the line is already present there.
\<close>

theorem restoration_pass:
  assumes "line \<in> set (set_commands_of commands)"
    and "dline \<in> set (delete_commands_of commands)"
    and "prefix dline (re_sub_set_delete line)"
  shows "line \<in> set (updates_of (diff_config enum commands config_text))"
proof -
  from assms(2,3)
  have "line \<in> set (map (\<lambda>_. line)
          (filter (\<lambda>dline. startswith (re_sub_set_delete line) dline) (delete_commands_of commands)))"
    by (auto simp: startswith_def)
  with assms(1) show ?thesis
    unfolding updates_of_diff_config by auto
qed

theorem restoration_pass_witness:
  "''set service dhcp-server disabled false''
      \<in> set (set_commands_of [''set service dhcp-server disabled false'', ''delete service dhcp-server''])
   \<and> ''delete service dhcp-server''
      \<in> set (delete_commands_of [''set service dhcp-server disabled false'', ''delete service dhcp-server''])
   \<and> prefix ''delete service dhcp-server'' (re_sub_set_delete ''set service dhcp-server disabled false'')
   \<and> ''set service dhcp-server disabled false''
      \<in> set (map strip_quotes (splitlines ''set service dhcp-server disabled false''))
   \<and> ''set service dhcp-server disabled false''
      \<in> set (updates_of (diff_config remdups
            [''set service dhcp-server disabled false'', ''delete service dhcp-server'']
            ''set service dhcp-server disabled false''))"
proof -
  have h: "''set service dhcp-server disabled false''
      \<in> set (set_commands_of [''set service dhcp-server disabled false'', ''delete service dhcp-server''])"
    "''delete service dhcp-server''
      \<in> set (delete_commands_of [''set service dhcp-server disabled false'', ''delete service dhcp-server''])"
    "prefix ''delete service dhcp-server'' (re_sub_set_delete ''set service dhcp-server disabled false'')"
    by (simp_all add: eval_defs)
  have c: "''set service dhcp-server disabled false''
      \<in> set (map strip_quotes (splitlines ''set service dhcp-server disabled false''))"
    by (simp add: eval_defs)
  from h c restoration_pass [OF h, of remdups "''set service dhcp-server disabled false''"]
  show ?thesis by blast
qed

subsection \<open>Delete commands bypass the idempotence filter\<close>

text \<open>
  C8. For every candidate and every live configuration the delete commands of the
  candidate (its lines that start with \<^verbatim>\<open>delete\<close> and a space once their apostrophes
  are removed, in their order) are the beginning of the updates, and they are all the
  updates that start with \<^verbatim>\<open>delete\<close>; a candidate line that starts with \<^verbatim>\<open>delete\<close> and a
  space is a delete command and occurs, without its apostrophes, in the updates; and a
  candidate with a delete command has a non-empty list of updates. The live
  configuration plays no part.
\<close>

theorem deletes_bypass_filter:
  "prefix (delete_commands_of commands) (updates_of (diff_config enum commands config_text))
   \<and> filter (\<lambda>l. startswith l ''delete '') (updates_of (diff_config enum commands config_text))
       = filter (\<lambda>l. startswith l ''delete '') (map strip_quotes commands)
   \<and> (\<forall>l \<in> set commands. startswith l ''delete '' \<longrightarrow>
         startswith (strip_quotes l) ''delete '' \<and>
         strip_quotes l \<in> set (updates_of (diff_config enum commands config_text)))
   \<and> ((\<exists>l \<in> set commands. startswith (strip_quotes l) ''delete '') \<longrightarrow>
         updates_of (diff_config enum commands config_text) \<noteq> [])"
proof (intro conjI ballI impI)
  show "prefix (delete_commands_of commands) (updates_of (diff_config enum commands config_text))"
    unfolding updates_of_diff_config by simp
next
  show "filter (\<lambda>l. startswith l ''delete '') (updates_of (diff_config enum commands config_text))
       = filter (\<lambda>l. startswith l ''delete '') (map strip_quotes commands)"
    by (simp add: filter_delete_updates delete_commands_of_eq)
next
  fix l assume "l \<in> set commands" "startswith l ''delete ''"
  then show "startswith (strip_quotes l) ''delete ''"
    by (simp add: strip_quotes_keeps_delete)
next
  fix l assume "l \<in> set commands" "startswith l ''delete ''"
  then have "strip_quotes l \<in> set (delete_commands_of commands)"
    by (simp add: delete_commands_of_eq strip_quotes_keeps_delete)
  then show "strip_quotes l \<in> set (updates_of (diff_config enum commands config_text))"
    unfolding updates_of_diff_config by simp
next
  assume "\<exists>l \<in> set commands. startswith (strip_quotes l) ''delete ''"
  then have "delete_commands_of commands \<noteq> []"
    by (auto simp: delete_commands_of_eq filter_empty_conv)
  then show "updates_of (diff_config enum commands config_text) \<noteq> []"
    unfolding updates_of_diff_config by simp
qed

theorem deletes_bypass_filter_witness:
  "startswith (''delete system '' @ CHR 0x27 # ''host-name'' @ [CHR 0x27]) ''delete ''
   \<and> strip_quotes (''delete system '' @ CHR 0x27 # ''host-name'' @ [CHR 0x27])
        = ''delete system host-name''
   \<and> ''delete system host-name'' \<in> set (updates_of (diff_config remdups
        [''delete system '' @ CHR 0x27 # ''host-name'' @ [CHR 0x27], ''set a b'', ''delete firewall'']
        ''set a b''))
   \<and> updates_of (diff_config remdups
        [''delete system '' @ CHR 0x27 # ''host-name'' @ [CHR 0x27], ''set a b'', ''delete firewall'']
        ''set a b'') = [''delete system host-name'', ''delete firewall'']"
proof -
  let ?l = "''delete system '' @ CHR 0x27 # ''host-name'' @ [CHR 0x27]"
  let ?c = "[?l, ''set a b'', ''delete firewall'']"
  have m: "?l \<in> set ?c" by simp
  have s: "startswith ?l ''delete ''" by (simp add: startswith_def)
  have e: "strip_quotes ?l = ''delete system host-name''" by (simp add: strip_quotes_def)
  have v: "updates_of (diff_config remdups ?c ''set a b'')
             = [''delete system host-name'', ''delete firewall'']"
    by (simp add: eval_defs)
  from deletes_bypass_filter [of ?c remdups "''set a b''"] m s
  have "strip_quotes ?l \<in> set (updates_of (diff_config remdups ?c ''set a b''))"
    by blast
  with s e v show ?thesis by simp
qed

subsection \<open>Delete statements come before set statements\<close>

text \<open>
  \<^verbatim>\<open>delete_unmanaged\<close> appends its delete commands at the end of \<^verbatim>\<open>updates\<close>. With the
  candidate \<^verbatim>\<open>["set a b"]\<close>, the live configuration \<^verbatim>\<open>set c d\<close> and the parameter
  \<^verbatim>\<open>delete_unmanaged\<close> set, the final list is \<^verbatim>\<open>["set a b", "delete c d"]\<close>: a set
  statement at position 0 and a delete statement after it, at position 1.
\<close>

theorem promotion_breaks_order_counterexample:
  "run_updates True remdups [''set a b''] ''set c d'' = [''set a b'', ''delete c d'']
   \<and> startswith (run_updates True remdups [''set a b''] ''set c d'' ! 0) ''set ''
   \<and> startswith (run_updates True remdups [''set a b''] ''set c d'' ! 1) ''delete ''"
  by (simp add: run_updates_def delete_unmanaged_def eval_defs)

text \<open>
  C5, as the code has it. In the updates returned by \<^verbatim>\<open>diff_config\<close> every delete
  statement stands before every set statement. The promotion step keeps that list as
  it is and appends the delete commands made from the unmanaged lines behind it, in
  the order of the unmanaged list; without unmanaged lines, or without the parameter,
  the final list is the list of \<^verbatim>\<open>diff_config\<close>.
\<close>

theorem delete_before_set:
  "(\<forall>i j. i < length (updates_of (diff_config enum commands config_text)) \<longrightarrow>
          j < length (updates_of (diff_config enum commands config_text)) \<longrightarrow>
          startswith (updates_of (diff_config enum commands config_text) ! i) ''delete '' \<longrightarrow>
          startswith (updates_of (diff_config enum commands config_text) ! j) ''set '' \<longrightarrow>
          i < j)
   \<and> run_updates delete_unmanaged_param enum commands config_text =
       (if unmanaged_of (diff_config enum commands config_text) \<noteq> [] \<and> delete_unmanaged_param
        then updates_of (diff_config enum commands config_text) @
             map re_sub_set_delete (unmanaged_of (diff_config enum commands config_text))
        else updates_of (diff_config enum commands config_text))"
  using updates_order run_updates_eq by blast

theorem delete_before_set_witness:
  "(0::nat) < length (updates_of (diff_config remdups [''set x y'', ''delete a''] ''set c d''))
   \<and> (1::nat) < length (updates_of (diff_config remdups [''set x y'', ''delete a''] ''set c d''))
   \<and> startswith (updates_of (diff_config remdups [''set x y'', ''delete a''] ''set c d'') ! 0) ''delete ''
   \<and> startswith (updates_of (diff_config remdups [''set x y'', ''delete a''] ''set c d'') ! 1) ''set ''
   \<and> (0::nat) < 1
   \<and> unmanaged_of (diff_config remdups [''set x y'', ''delete a''] ''set c d'') \<noteq> []
   \<and> run_updates True remdups [''set x y'', ''delete a''] ''set c d''
        = [''delete a'', ''set x y'', ''delete c d'']"
proof -
  have u: "updates_of (diff_config remdups [''set x y'', ''delete a''] ''set c d'')
             = [''delete a'', ''set x y'']"
    by (simp add: eval_defs)
  have m: "unmanaged_of (diff_config remdups [''set x y'', ''delete a''] ''set c d'')
             = [''set c d'']"
    by (simp add: eval_defs)
  have s: "startswith ''delete a'' ''delete ''" "startswith ''set x y'' ''set ''"
    "re_sub_set_delete ''set c d'' = ''delete c d''"
    by (simp_all add: startswith_def re_sub_set_delete_def)
  from delete_before_set [of remdups "[''set x y'', ''delete a'']" "''set c d''" True]
  have "run_updates True remdups [''set x y'', ''delete a''] ''set c d''
        = [''delete a'', ''set x y'', ''delete c d'']"
    by (simp add: u m s)
  with u m s show ?thesis by simp
qed

subsection \<open>The empty candidate\<close>

text \<open>
  C7. For the empty candidate and any text of the live configuration, \<^verbatim>\<open>diff_config\<close>
  returns no updates and no invalid commands, and the unmanaged list holds exactly the
  lines of the live configuration, each without its apostrophes. This holds for every
  order in which Python may enumerate the set difference.
\<close>

theorem empty_candidate:
  assumes "set_enumeration enum"
  shows "updates_of (diff_config enum [] config_text) = []
       \<and> invalid_of (diff_config enum [] config_text) = []
       \<and> set (unmanaged_of (diff_config enum [] config_text))
           = set (map strip_quotes (splitlines config_text))"
proof -
  have u: "updates_of (diff_config enum [] config_text) = []"
    by (simp add: updates_of_diff_config set_commands_of_def delete_commands_of_def)
  have i: "invalid_of (diff_config enum [] config_text) = []"
    by (simp add: invalid_of_diff_config invalid_commands_of_def)
  have "unmanaged_of (diff_config enum [] config_text)
          = enum (map strip_quotes (splitlines config_text))"
    by (simp add: unmanaged_of_diff_config u list_of_set_difference_def set_commands_of_def)
  with assms have "set (unmanaged_of (diff_config enum [] config_text))
           = set (map strip_quotes (splitlines config_text))"
    by (simp add: set_enumeration_def)
  with u i show ?thesis by simp
qed

theorem empty_candidate_witness:
  "set_enumeration remdups
   \<and> updates_of (diff_config remdups [] (''set a '' @ CHR 0x27 # ''b'' @ CHR 0x27 # CHR 0x0A # ''set c d'')) = []
   \<and> invalid_of (diff_config remdups [] (''set a '' @ CHR 0x27 # ''b'' @ CHR 0x27 # CHR 0x0A # ''set c d'')) = []
   \<and> set (unmanaged_of (diff_config remdups [] (''set a '' @ CHR 0x27 # ''b'' @ CHR 0x27 # CHR 0x0A # ''set c d'')))
        = {''set a b'', ''set c d''}"
proof -
  have l: "map strip_quotes (splitlines (''set a '' @ CHR 0x27 # ''b'' @ CHR 0x27 # CHR 0x0A # ''set c d''))
             = [''set a b'', ''set c d'']"
    by (simp add: splitlines_def strip_quotes_def is_linebreak_def)
  from empty_candidate [OF set_enumeration_remdups,
      of "''set a '' @ CHR 0x27 # ''b'' @ CHR 0x27 # CHR 0x0A # ''set c d''"]
  show ?thesis unfolding l using set_enumeration_remdups by simp
qed

subsection \<open>The unmanaged list has no duplicates\<close>

text \<open>
  C9. The unmanaged list returned by \<^verbatim>\<open>diff_config\<close> never holds a line twice, also when
  the live configuration repeats a line: the list comes from the set difference, which
  has each element once, and the filter that follows removes lines only.
\<close>

theorem unmanaged_distinct:
  assumes "set_enumeration enum"
  shows "distinct (unmanaged_of (diff_config enum commands config_text))"
  using assms
  by (simp add: unmanaged_of_diff_config list_of_set_difference_def set_enumeration_def)

theorem unmanaged_distinct_witness:
  "set_enumeration remdups
   \<and> map strip_quotes (splitlines (''set a b'' @ CHR 0x0A # ''set a b'' @ CHR 0x0A # ''set c d''))
       = [''set a b'', ''set a b'', ''set c d'']
   \<and> unmanaged_of (diff_config remdups [''set c d'']
        (''set a b'' @ CHR 0x0A # ''set a b'' @ CHR 0x0A # ''set c d'')) = [''set a b'']
   \<and> distinct (unmanaged_of (diff_config remdups [''set c d'']
        (''set a b'' @ CHR 0x0A # ''set a b'' @ CHR 0x0A # ''set c d'')))"
proof -
  have l: "map strip_quotes (splitlines (''set a b'' @ CHR 0x0A # ''set a b'' @ CHR 0x0A # ''set c d''))
       = [''set a b'', ''set a b'', ''set c d'']"
    by (simp add: splitlines_def strip_quotes_def is_linebreak_def)
  have v: "unmanaged_of (diff_config remdups [''set c d'']
        (''set a b'' @ CHR 0x0A # ''set a b'' @ CHR 0x0A # ''set c d'')) = [''set a b'']"
    by (simp add: eval_defs)
  from unmanaged_distinct [OF set_enumeration_remdups, of "[''set c d'']"
      "''set a b'' @ CHR 0x0A # ''set a b'' @ CHR 0x0A # ''set c d''"]
    l v set_enumeration_remdups
  show ?thesis by blast
qed

subsection \<open>The three buckets of the candidate\<close>

text \<open>
  C10. A candidate line (without its apostrophes) is a set command exactly when it
  starts with \<^verbatim>\<open>set\<close> and a space, a delete command exactly when it starts with
  \<^verbatim>\<open>delete\<close> and a space, and invalid otherwise; the invalid list of \<^verbatim>\<open>diff_config\<close> is
  that third bucket, and the bare lines \<^verbatim>\<open>set\<close> and \<^verbatim>\<open>delete\<close> are in it. The three
  buckets together have as many entries as the candidate has lines, and every
  candidate line is in exactly one of them.
\<close>

theorem classification:
  "set_commands_of commands
     = filter (\<lambda>l. startswith l ''set '') (map strip_quotes commands)
   \<and> delete_commands_of commands
     = filter (\<lambda>l. startswith l ''delete '') (map strip_quotes commands)
   \<and> invalid_commands_of commands
     = filter (\<lambda>l. \<not> startswith l ''delete '' \<and> \<not> startswith l ''set '')
         (map strip_quotes commands)
   \<and> invalid_of (diff_config enum commands config_text) = invalid_commands_of commands
   \<and> invalid_of (diff_config enum [''set'', ''delete''] config_text) = [''set'', ''delete'']
   \<and> length (set_commands_of commands) + length (delete_commands_of commands)
       + length (invalid_commands_of commands) = length commands
   \<and> (\<forall>l \<in> set commands.
        (strip_quotes l \<in> set (set_commands_of commands)
           \<and> strip_quotes l \<notin> set (delete_commands_of commands)
           \<and> strip_quotes l \<notin> set (invalid_commands_of commands))
      \<or> (strip_quotes l \<notin> set (set_commands_of commands)
           \<and> strip_quotes l \<in> set (delete_commands_of commands)
           \<and> strip_quotes l \<notin> set (invalid_commands_of commands))
      \<or> (strip_quotes l \<notin> set (set_commands_of commands)
           \<and> strip_quotes l \<notin> set (delete_commands_of commands)
           \<and> strip_quotes l \<in> set (invalid_commands_of commands)))"
proof (intro conjI ballI)
  show "invalid_of (diff_config enum [''set'', ''delete''] config_text) = [''set'', ''delete'']"
    by (simp add: invalid_of_diff_config invalid_commands_of_def strip_quotes_def startswith_def)
next
  show "length (set_commands_of commands) + length (delete_commands_of commands)
       + length (invalid_commands_of commands) = length commands"
    using buckets_length [of "map strip_quotes commands"]
    by (simp add: set_commands_of_eq delete_commands_of_eq invalid_commands_of_eq)
next
  fix l assume "l \<in> set commands"
  then show "(strip_quotes l \<in> set (set_commands_of commands)
           \<and> strip_quotes l \<notin> set (delete_commands_of commands)
           \<and> strip_quotes l \<notin> set (invalid_commands_of commands))
      \<or> (strip_quotes l \<notin> set (set_commands_of commands)
           \<and> strip_quotes l \<in> set (delete_commands_of commands)
           \<and> strip_quotes l \<notin> set (invalid_commands_of commands))
      \<or> (strip_quotes l \<notin> set (set_commands_of commands)
           \<and> strip_quotes l \<notin> set (delete_commands_of commands)
           \<and> strip_quotes l \<in> set (invalid_commands_of commands))"
    using set_not_delete [of "strip_quotes l"]
    by (auto simp: set_commands_of_eq delete_commands_of_eq invalid_commands_of_eq)
qed (simp_all add: set_commands_of_eq delete_commands_of_eq invalid_commands_of_eq
      invalid_of_diff_config)

theorem classification_witness:
  "''set'' \<in> set [''set a'', ''delete b'', ''set'', ''delete'', ''show x'']
   \<and> set_commands_of [''set a'', ''delete b'', ''set'', ''delete'', ''show x''] = [''set a'']
   \<and> delete_commands_of [''set a'', ''delete b'', ''set'', ''delete'', ''show x''] = [''delete b'']
   \<and> invalid_commands_of [''set a'', ''delete b'', ''set'', ''delete'', ''show x'']
        = [''set'', ''delete'', ''show x'']
   \<and> ''set'' \<notin> set (set_commands_of [''set a'', ''delete b'', ''set'', ''delete'', ''show x''])
   \<and> ''set'' \<notin> set (delete_commands_of [''set a'', ''delete b'', ''set'', ''delete'', ''show x''])
   \<and> ''set'' \<in> set (invalid_commands_of [''set a'', ''delete b'', ''set'', ''delete'', ''show x''])"
proof -
  let ?c = "[''set a'', ''delete b'', ''set'', ''delete'', ''show x'']"
  have m: "''set'' \<in> set ?c" by simp
  have s: "map strip_quotes ?c = ?c" by (simp add: strip_quotes_def)
  have f: "filter (\<lambda>l. startswith l ''set '') ?c = [''set a'']"
    "filter (\<lambda>l. startswith l ''delete '') ?c = [''delete b'']"
    "filter (\<lambda>l. \<not> startswith l ''delete '' \<and> \<not> startswith l ''set '') ?c
       = [''set'', ''delete'', ''show x'']"
    by (simp_all add: startswith_def)
  from classification [of ?c remdups "[]"]
  have e: "set_commands_of ?c = [''set a'']" "delete_commands_of ?c = [''delete b'']"
    "invalid_commands_of ?c = [''set'', ''delete'', ''show x'']"
    unfolding s f by blast+
  from m e show ?thesis by simp
qed

subsection \<open>Idempotence\<close>

text \<open>
  C1. Let the live configuration be set statements joined by newlines, each statement
  one line of text that starts with \<^verbatim>\<open>set\<close> and a space. Then \<^verbatim>\<open>splitlines\<close> gives these
  statements back, and \<^verbatim>\<open>diff_config\<close>, called with the statements as the candidate and
  the joined text as the live configuration, returns no updates and no invalid
  commands.
\<close>

theorem idempotence:
  assumes "\<forall>s \<in> set stmts. startswith s ''set '' \<and> \<not> list_ex is_linebreak s"
  shows "splitlines (join_nl stmts) = stmts
       \<and> updates_of (diff_config enum stmts (join_nl stmts)) = []
       \<and> invalid_of (diff_config enum stmts (join_nl stmts)) = []"
proof -
  have ne: "\<forall>s \<in> set stmts. s \<noteq> [] \<and> \<not> list_ex is_linebreak s"
    using assms by (auto simp: startswith_def)
  then have l: "splitlines (join_nl stmts) = stmts"
    by (rule splitlines_join_nl)
  with assms have "\<forall>l \<in> set (splitlines (join_nl stmts)). startswith l ''set ''"
    by simp
  from idempotent_on_lines [OF this, of enum] l show ?thesis by simp
qed

theorem idempotence_witness:
  "startswith ''set interfaces eth0 address 1.2.3.4'' ''set ''
   \<and> \<not> list_ex is_linebreak ''set interfaces eth0 address 1.2.3.4''
   \<and> startswith (''set system host-name '' @ CHR 0x27 # ''edge'' @ [CHR 0x27]) ''set ''
   \<and> \<not> list_ex is_linebreak (''set system host-name '' @ CHR 0x27 # ''edge'' @ [CHR 0x27])
   \<and> join_nl [''set interfaces eth0 address 1.2.3.4'',
              ''set system host-name '' @ CHR 0x27 # ''edge'' @ [CHR 0x27]]
       = ''set interfaces eth0 address 1.2.3.4'' @ CHR 0x0A #
           ''set system host-name '' @ CHR 0x27 # ''edge'' @ [CHR 0x27]
   \<and> updates_of (diff_config remdups
        [''set interfaces eth0 address 1.2.3.4'',
         ''set system host-name '' @ CHR 0x27 # ''edge'' @ [CHR 0x27]]
        (join_nl [''set interfaces eth0 address 1.2.3.4'',
                  ''set system host-name '' @ CHR 0x27 # ''edge'' @ [CHR 0x27]])) = []
   \<and> invalid_of (diff_config remdups
        [''set interfaces eth0 address 1.2.3.4'',
         ''set system host-name '' @ CHR 0x27 # ''edge'' @ [CHR 0x27]]
        (join_nl [''set interfaces eth0 address 1.2.3.4'',
                  ''set system host-name '' @ CHR 0x27 # ''edge'' @ [CHR 0x27]])) = []"
proof -
  let ?a = "''set interfaces eth0 address 1.2.3.4''"
  let ?b = "''set system host-name '' @ CHR 0x27 # ''edge'' @ [CHR 0x27]"
  have a: "startswith ?a ''set ''" "\<not> list_ex is_linebreak ?a"
    by (simp_all add: startswith_def is_linebreak_def)
  have b: "startswith ?b ''set ''" "\<not> list_ex is_linebreak ?b"
    by (simp_all add: startswith_def is_linebreak_def)
  have h: "\<forall>s \<in> set [?a, ?b]. startswith s ''set '' \<and> \<not> list_ex is_linebreak s"
    using a b by simp
  have j: "join_nl [?a, ?b] = ?a @ CHR 0x0A # ?b" by simp
  from idempotence [OF h, of remdups] a b j show ?thesis by blast
qed

subsection \<open>Prefix collapse in config\_to\_commands\<close>




end
